theory Spec2Isabelle
  imports
    Main
    "HOL-Library.Word"
    "HOL-Library.Signed_Division"
    "HOL-Library.List_Lexorder"
    "HOL-Library.Multiset"
begin

section \<open>Data model\<close>

text \<open>
  The embedding follows
  \<^verbatim>\<open>pkg/ccl/streamingccl/logical/logical_replication_writer_processor.go\<close>.
  Go's \<^verbatim>\<open>int64\<close> and \<^verbatim>\<open>int32\<close> fields of a timestamp are words read as two's
  complement. Lengths, slice indices and the byte counter of the buffer are
  \<open>nat\<close> and \<open>int\<close>: they are bounded by the memory that holds the buffered
  mutations, so none of the additions on them can wrap.
\<close>

type_synonym byte = "8 word"
type_synonym int64 = "64 word"
type_synonym int32 = "32 word"

text \<open>\<^verbatim>\<open>roachpb.Key\<close> is a byte slice.\<close>

type_synonym Key = "byte list"

text \<open>
  Modelled from the spec: \<^verbatim>\<open>hlc.Timestamp\<close> (package \<^verbatim>\<open>pkg/util/hlc\<close>, which the
  writer imports) is a wall time in nanoseconds and a logical counter, the two
  fields the writer reads and assigns; timestamps are ordered by wall time,
  then by logical counter.
\<close>

record Timestamp =
  WallTime :: int64
  Logical :: int32

record Value =
  RawBytes :: "byte list"
  Timestamp :: Timestamp

record KeyValue =
  Key :: Key
  Value :: Value

record Span =
  SpanKey :: Key
  EndKey :: Key

text \<open>\<^verbatim>\<open>jobspb.ResolvedSpan\<close>; its Go fields are \<^verbatim>\<open>Span\<close> and \<^verbatim>\<open>Timestamp\<close>.\<close>

record ResolvedSpan =
  RSpan :: Span
  RTimestamp :: Timestamp

text \<open>
  Modelled from the spec: the operations of \<^verbatim>\<open>hlc.Timestamp\<close> that the writer
  calls, and the largest timestamp \<^verbatim>\<open>hlc.MaxTimestamp\<close>
  (\<^verbatim>\<open>math.MaxInt64\<close>, \<^verbatim>\<open>math.MaxInt32\<close>).
\<close>

definition MaxTimestamp :: Timestamp where
  "MaxTimestamp = \<lparr>WallTime = 0x7FFFFFFFFFFFFFFF, Logical = 0x7FFFFFFF\<rparr>"

definition Less :: "Timestamp \<Rightarrow> Timestamp \<Rightarrow> bool" where
  "Less t s \<longleftrightarrow>
     WallTime t <s WallTime s \<or> (WallTime t = WallTime s \<and> Logical t <s Logical s)"

definition LessEq :: "Timestamp \<Rightarrow> Timestamp \<Rightarrow> bool" where
  "LessEq t s \<longleftrightarrow>
     WallTime t <s WallTime s \<or> (WallTime t = WallTime s \<and> Logical t \<le>s Logical s)"

definition After :: "Timestamp \<Rightarrow> Timestamp \<Rightarrow> bool" where
  "After t s \<longleftrightarrow> \<not> LessEq t s"

definition IsEmpty :: "Timestamp \<Rightarrow> bool" where
  "IsEmpty t \<longleftrightarrow> WallTime t = 0 \<and> Logical t = 0"

definition Timestamp_Compare :: "Timestamp \<Rightarrow> Timestamp \<Rightarrow> int" where
  "Timestamp_Compare t s =
     (if WallTime s <s WallTime t then 1
      else if WallTime t <s WallTime s then - 1
      else if Logical s <s Logical t then 1
      else if Logical t <s Logical s then - 1
      else 0)"

text \<open>
  \<^verbatim>\<open>Key.Compare\<close> is \<^verbatim>\<open>bytes.Compare\<close> and \<^verbatim>\<open>Key.Equal\<close> is \<^verbatim>\<open>bytes.Equal\<close>:
  the lexicographic order of byte strings, bytes compared unsigned. That is the
  order of \<open>byte list\<close>.
\<close>

definition Key_Compare :: "Key \<Rightarrow> Key \<Rightarrow> int" where
  "Key_Compare a b = (if a < b then - 1 else if b < a then 1 else 0)"

definition Key_Equal :: "Key \<Rightarrow> Key \<Rightarrow> bool" where
  "Key_Equal a b \<longleftrightarrow> a = b"


datatype error =
    ErrKVEventExpectedKV
  | ErrCheckpointExpectedResolvedSpans
  | ErrUnexpectedEvent
  | ErrUnknownEventType
  | ErrForwardFrontier error
  | ErrExternal nat

datatype panic = IndexOutOfRange | DivideByZero | AssertionFailed

section \<open>Settings\<close>

text \<open>
  The cluster settings the writer reads. \<^verbatim>\<open>flushBatchSize\<close> is registered with
  \<^verbatim>\<open>settings.NonNegativeInt\<close>, so its value is a natural number; the other
  integer settings are registered without a validator. \<^verbatim>\<open>quantize\<close> is a
  \<^verbatim>\<open>time.Duration\<close>, an \<^verbatim>\<open>int64\<close> of nanoseconds.
\<close>

record Settings =
  targetKVBufferLen :: int
  maxKVBufferSize :: int
  flushBatchSize :: nat
  quantize :: int64

section \<open>The ingestion buffer\<close>

record ingestionBuffer =
  curKVBatch :: "KeyValue list"
  curKVBatchSize :: int
  minTimestamp :: Timestamp

definition NewIngestionBuffer :: ingestionBuffer where
  "NewIngestionBuffer = \<lparr>curKVBatch = [], curKVBatchSize = 0, minTimestamp = MaxTimestamp\<rparr>"

text \<open>
  \<^verbatim>\<open>kv.Size()\<close> is the generated protobuf size of a key-value pair; it is a
  parameter \<open>sz\<close> of the model.
\<close>

definition addKV :: "(KeyValue \<Rightarrow> int) \<Rightarrow> KeyValue \<Rightarrow> ingestionBuffer \<Rightarrow> ingestionBuffer" where
  "addKV sz kv b =
     b\<lparr>curKVBatchSize := curKVBatchSize b + sz kv,
       curKVBatch := curKVBatch b @ [kv],
       minTimestamp :=
         (if Less (Timestamp (Value kv)) (minTimestamp b) then Timestamp (Value kv)
          else minTimestamp b)\<rparr>"

definition reset :: "ingestionBuffer \<Rightarrow> ingestionBuffer" where
  "reset b =
     b\<lparr>minTimestamp := MaxTimestamp, curKVBatchSize := 0, curKVBatch := take 0 (curKVBatch b)\<rparr>"

text \<open>The result is the pair \<^verbatim>\<open>(shouldFlush, mustFlush)\<close>.\<close>

definition shouldFlushOnKVSize :: "Settings \<Rightarrow> ingestionBuffer \<Rightarrow> bool \<times> bool" where
  "shouldFlushOnKVSize sv b =
     (let kvBufMax = maxKVBufferSize sv;
          kvBufLenTarget = targetKVBufferLen sv
      in if kvBufMax > 0 \<and> curKVBatchSize b \<ge> kvBufMax then (True, True)
         else if int (length (curKVBatch b)) \<ge> kvBufLenTarget then (True, False)
         else (False, False))"

text \<open>
  \<^verbatim>\<open>getBuffer\<close> takes a buffer from the pool: a new one, or one that
  \<^verbatim>\<open>releaseBuffer\<close> reset before it was put back.
\<close>

definition getBuffer :: ingestionBuffer where
  "getBuffer = NewIngestionBuffer"

definition releaseBuffer :: "ingestionBuffer \<Rightarrow> ingestionBuffer" where
  "releaseBuffer b = reset b"

section \<open>Events, the frontier and the processor state\<close>



text \<open>
  \<^verbatim>\<open>span.Frontier\<close> (package \<^verbatim>\<open>pkg/util/span\<close>) is an interface whose
  implementation is not part of the writer. The model takes its three
  operations as parameters over a frontier state \<open>'f\<close>: \<open>Forward\<close> returns
  the frontier after the call and the error, if any; \<open>Entries\<close> is the sequence
  of pairs that \<^verbatim>\<open>Entries\<close> passes to a callback which always answers
  \<^verbatim>\<open>ContinueMatch\<close>; \<open>Frontier\<close> is the frontier's timestamp.
\<close>

record 'f FrontierOps =
  Forward :: "'f \<Rightarrow> Span \<Rightarrow> Timestamp \<Rightarrow> 'f \<times> error option"
  Entries :: "'f \<Rightarrow> (Span \<times> Timestamp) list"
  Frontier :: "'f \<Rightarrow> Timestamp"

text \<open>\<^verbatim>\<open>flushableBuffer\<close>; its Go fields are \<^verbatim>\<open>buffer\<close> and \<^verbatim>\<open>checkpoint\<close>.\<close>

record flushableBuffer =
  fbBuffer :: ingestionBuffer
  checkpoint :: "ResolvedSpan list"

text \<open>
  The fields of \<^verbatim>\<open>logicalReplicationWriterProcessor\<close> that the event consumer
  reads and writes. \<open>flushCh\<close> holds the units handed to the flush loop, oldest
  first. \<open>flushInProgress\<close> is the atomic flag that the flush loop sets and
  clears. Times are nanoseconds.
\<close>

record 'f logicalReplicationWriterProcessor =
  InitialScanTimestamp :: Timestamp
  buffer :: ingestionBuffer
  frontier :: 'f
  lastFlushTime :: int
  lastFlushFrontier :: Timestamp
  flushInProgress :: bool
  flushCh :: "flushableBuffer list"
  FlushOnSize :: nat
  FlushOnTime :: nat
  CheckpointEvents :: nat

datatype flushReason = flushOnSize | flushOnTime | flushOnClose

text \<open>
  The \<^verbatim>\<open>select\<close> of \<^verbatim>\<open>flush\<close> ends in one of two ways, decided by the other
  goroutines: the flush loop receives the unit (at the time given), or the stop
  channel is closed.
\<close>

datatype handoff = Accepted int | Stopped

datatype 's result = Panicked panic | Returned "error option" 's

section \<open>Buffering events\<close>





section \<open>The flush coordinator\<close>

text \<open>The callback that \<^verbatim>\<open>flush\<close> passes to \<^verbatim>\<open>Entries\<close>, run over the entries.\<close>

definition makeCheckpoint :: "(Span \<times> Timestamp) list \<Rightarrow> ResolvedSpan list" where
  "makeCheckpoint entries =
     foldl (\<lambda>acc (sp, ts).
              if \<not> IsEmpty ts then acc @ [\<lparr>RSpan = sp, RTimestamp = ts\<rparr>] else acc)
           [] entries"

definition flush ::
  "'f FrontierOps \<Rightarrow> handoff \<Rightarrow> flushReason \<Rightarrow> 'f logicalReplicationWriterProcessor
    \<Rightarrow> error option \<times> 'f logicalReplicationWriterProcessor" where
  "flush fo h reason lrw =
     (let lrw1 = (case reason of
                    flushOnSize \<Rightarrow> lrw\<lparr>FlushOnSize := FlushOnSize lrw + 1\<rparr>
                  | flushOnTime \<Rightarrow> lrw\<lparr>FlushOnTime := FlushOnTime lrw + 1\<rparr>
                  | flushOnClose \<Rightarrow> lrw);
          bufferToFlush = buffer lrw1;
          lrw2 = lrw1\<lparr>buffer := getBuffer\<rparr>;
          cp = makeCheckpoint (Entries fo (frontier lrw2));
          thisFlushFrontier = Frontier fo (frontier lrw2)
      in case h of
           Accepted now \<Rightarrow>
             (None, lrw2\<lparr>flushCh := flushCh lrw2 @ [\<lparr>fbBuffer = bufferToFlush, checkpoint = cp\<rparr>],
                         lastFlushFrontier := thisFlushFrontier,
                         lastFlushTime := now\<rparr>)
         | Stopped \<Rightarrow> (None, lrw2))"

definition maybeFlush ::
  "'f FrontierOps \<Rightarrow> handoff \<Rightarrow> flushReason \<Rightarrow> 'f logicalReplicationWriterProcessor
    \<Rightarrow> error option \<times> 'f logicalReplicationWriterProcessor" where
  "maybeFlush fo h reason lrw =
     (if flushInProgress lrw then (None, lrw)
      else if length (curKVBatch (buffer lrw)) = 0
              \<and> LessEq (Frontier fo (frontier lrw)) (lastFlushFrontier lrw)
      then (None, lrw)
      else flush fo h reason lrw)"

section \<open>Handling one event\<close>


section \<open>The batch applier\<close>

text \<open>
  \<^verbatim>\<open>keys.EnsureSafeSplitKey\<close> (package \<^verbatim>\<open>pkg/keys\<close>) is a parameter \<open>essk\<close> of
  the model: \<open>None\<close> when it returns an error. \<open>k\<close> is the closure of
  \<^verbatim>\<open>flushBuffer\<close> that gives the split-safe key of a mutation.
\<close>

definition k :: "(Key \<Rightarrow> Key option) \<Rightarrow> KeyValue \<Rightarrow> Key" where
  "k essk kv = (case essk (Key kv) of Some p \<Rightarrow> p | None \<Rightarrow> Key kv)"

text \<open>The comparison that \<^verbatim>\<open>flushBuffer\<close> passes to \<^verbatim>\<open>slices.SortFunc\<close>.\<close>

definition sortCmp :: "(Key \<Rightarrow> Key option) \<Rightarrow> KeyValue \<Rightarrow> KeyValue \<Rightarrow> int" where
  "sortCmp essk a b =
     (let c = Key_Compare (k essk a) (k essk b)
      in if c \<noteq> 0 then c
         else Timestamp_Compare (Timestamp (Value a)) (Timestamp (Value b)))"

text \<open>
  \<^verbatim>\<open>slices.SortFunc\<close> of Go's standard library sorts in place by the comparison
  and is not stable. The model is an insertion sort by the same comparison; the
  proofs use of it only that the result is a rearrangement of the input in
  which no element compares greater than a later one.
\<close>

fun insertFunc :: "('a \<Rightarrow> 'a \<Rightarrow> int) \<Rightarrow> 'a \<Rightarrow> 'a list \<Rightarrow> 'a list" where
  "insertFunc cmp x [] = [x]"
| "insertFunc cmp x (y # ys) =
     (if cmp x y \<le> 0 then x # y # ys else y # insertFunc cmp x ys)"

definition SortFunc :: "('a \<Rightarrow> 'a \<Rightarrow> int) \<Rightarrow> 'a list \<Rightarrow> 'a list" where
  "SortFunc cmp xs = foldr (insertFunc cmp) xs []"

text \<open>The Go slice expression \<^verbatim>\<open>xs[lo:hi]\<close>, for \<open>lo \<le> hi \<le> length xs\<close>.\<close>

definition slice :: "'a list \<Rightarrow> nat \<Rightarrow> nat \<Rightarrow> 'a list" where
  "slice xs lo hi = take (hi - lo) (drop lo xs)"

text \<open>
  The inner loop that moves \<^verbatim>\<open>chunkEnd\<close> forward. \<^verbatim>\<open>kvs[chunkEnd-1]\<close> panics when
  \<^verbatim>\<open>chunkEnd\<close> is zero.
\<close>

function extendChunkEnd :: "(KeyValue \<Rightarrow> Key) \<Rightarrow> KeyValue list \<Rightarrow> nat \<Rightarrow> panic + nat" where
  "extendChunkEnd kf kvs chunkEnd =
     (if chunkEnd < length kvs then
        (if chunkEnd = 0 then Inl IndexOutOfRange
         else if Key_Equal (kf (kvs ! (chunkEnd - 1))) (kf (kvs ! chunkEnd))
              then extendChunkEnd kf kvs (chunkEnd + 1)
              else Inr chunkEnd)
      else Inr chunkEnd)"
  by pat_completeness auto
termination
  by (relation "measure (\<lambda>(kf, kvs, chunkEnd). length kvs - chunkEnd)") auto

declare extendChunkEnd.simps [simp del]

text \<open>
  The loop over the workers. Each round that does not break starts one worker,
  recorded as its batch handler, its \<^verbatim>\<open>batchStart\<close> and its \<^verbatim>\<open>chunkEnd\<close>. The
  result is the workers started and the final \<^verbatim>\<open>chunkStart\<close>.
\<close>

fun chunkLoop ::
  "(KeyValue \<Rightarrow> Key) \<Rightarrow> KeyValue list \<Rightarrow> nat \<Rightarrow> 'h list \<Rightarrow> nat
    \<Rightarrow> panic + (('h \<times> nat \<times> nat) list \<times> nat)" where
  "chunkLoop kf kvs chunkSize [] chunkStart = Inr ([], chunkStart)"
| "chunkLoop kf kvs chunkSize (bh # rest) chunkStart =
     (if chunkStart \<ge> length kvs then Inr ([], chunkStart)
      else
        (case extendChunkEnd kf kvs (min (chunkStart + chunkSize) (length kvs)) of
           Inl p \<Rightarrow> Inl p
         | Inr chunkEnd \<Rightarrow>
             (case chunkLoop kf kvs chunkSize rest chunkEnd of
                Inl p \<Rightarrow> Inl p
              | Inr (workers, chunkStart') \<Rightarrow>
                  Inr ((bh, chunkStart, chunkEnd) # workers, chunkStart'))))"

text \<open>
  A \<^verbatim>\<open>BatchHandler\<close> is an interface to the transactional store. In the model
  it answers a call, given the number of calls the worker has made before and
  the batch, with an error or the byte size of \<^verbatim>\<open>batchStats\<close>.
\<close>

type_synonym BatchHandler = "nat \<Rightarrow> KeyValue list \<Rightarrow> error + int"

text \<open>
  The goroutine of one worker. It need not return: with a batch size of zero
  \<^verbatim>\<open>batchEnd\<close> equals \<^verbatim>\<open>batchStart\<close> and the loop makes no progress. The result
  is the batches passed to \<^verbatim>\<open>HandleBatch\<close>, in the order of the calls, the bytes
  added to \<^verbatim>\<open>flushByteSize\<close> and the error returned.
\<close>

partial_function (option) workerLoop ::
  "BatchHandler \<Rightarrow> KeyValue list \<Rightarrow> nat \<Rightarrow> nat \<Rightarrow> nat \<Rightarrow> KeyValue list list \<Rightarrow> int
    \<Rightarrow> (KeyValue list list \<times> int \<times> error option) option" where
  "workerLoop bh kvs batchSize chunkEnd batchStart applied bytes =
     (if batchStart < chunkEnd then
        (let batchEnd = min (batchStart + batchSize) chunkEnd;
             batch = slice kvs batchStart batchEnd
         in case bh (length applied) batch of
              Inl err \<Rightarrow> Some (applied @ [batch], bytes, Some err)
            | Inr byteSize \<Rightarrow>
                workerLoop bh kvs batchSize chunkEnd batchEnd (applied @ [batch]) (bytes + byteSize))
      else Some (applied, bytes, None))"

text \<open>
  \<^verbatim>\<open>g.Wait()\<close> returns when every worker has returned, with the error of the
  first worker that failed. Which worker fails first in time is not determined
  by the program; the model takes the first in the order of the pool.
\<close>

fun Wait :: "(KeyValue list list \<times> int \<times> error option) option list \<Rightarrow> error option option" where
  "Wait [] = Some None"
| "Wait (None # rs) = None"
| "Wait (Some (applied, bytes, err) # rs) =
     (case Wait rs of
        None \<Rightarrow> None
      | Some err' \<Rightarrow> Some (case err of Some e \<Rightarrow> Some e | None \<Rightarrow> err'))"

datatype flushResult = FlushPanic panic | FlushReturn "ResolvedSpan list" "error option"

text \<open>The slice \<^verbatim>\<open>kvs\<close> after \<^verbatim>\<open>slices.SortFunc\<close>.\<close>

definition sortedKVs :: "(Key \<Rightarrow> Key option) \<Rightarrow> flushableBuffer \<Rightarrow> KeyValue list" where
  "sortedKVs essk b = SortFunc (sortCmp essk) (curKVBatch (fbBuffer b))"

text \<open>
  The chunk assignment of \<^verbatim>\<open>flushBuffer\<close> for a buffer that is not empty:
  \<^verbatim>\<open>chunkSize\<close>, whose division panics for an empty pool, and the loop over the
  workers from \<^verbatim>\<open>chunkStart = 0\<close>.
\<close>

definition assignChunks ::
  "(Key \<Rightarrow> Key option) \<Rightarrow> 'h list \<Rightarrow> nat \<Rightarrow> flushableBuffer
    \<Rightarrow> panic + (('h \<times> nat \<times> nat) list \<times> nat)" where
  "assignChunks essk bh batchSize b =
     (let kvs = sortedKVs essk b
      in if length bh = 0 then Inl DivideByZero
         else
           let chunkSize = max (length kvs div length bh + 1) batchSize
           in chunkLoop (k essk) kvs chunkSize bh 0)"

text \<open>
  \<^verbatim>\<open>flushBuffer\<close>: \<open>None\<close> when it does not return, a panic, or the checkpoint
  and the error it returns.
\<close>

definition flushBuffer ::
  "(Key \<Rightarrow> Key option) \<Rightarrow> BatchHandler list \<Rightarrow> nat \<Rightarrow> flushableBuffer \<Rightarrow> flushResult option" where
  "flushBuffer essk bh batchSize b =
     (if length (curKVBatch (fbBuffer b)) = 0 then Some (FlushReturn (checkpoint b) None)
      else
        (case assignChunks essk bh batchSize b of
           Inl p \<Rightarrow> Some (FlushPanic p)
         | Inr (workers, chunkStart) \<Rightarrow>
             (if chunkStart \<noteq> length (sortedKVs essk b) then Some (FlushPanic AssertionFailed)
              else
                (case Wait (map (\<lambda>(h, batchStart, chunkEnd).
                                   workerLoop h (sortedKVs essk b) batchSize chunkEnd batchStart [] 0)
                                workers) of
                   None \<Rightarrow> None
                 | Some (Some err) \<Rightarrow> Some (FlushReturn (checkpoint b) (Some err))
                 | Some None \<Rightarrow> Some (FlushReturn (checkpoint b) None)))))"

section \<open>Example data\<close>

text \<open>
  Concrete inputs on which the theorems below are instantiated: a mutation with
  a given key and wall time, a frontier that tracks a fixed list of spans and
  forwards the entry of the span named, and a processor state with one
  buffered mutation.
\<close>

definition exampleKV :: "Key \<Rightarrow> int64 \<Rightarrow> KeyValue" where
  "exampleKV key wall =
     \<lparr>Key = key, Value = \<lparr>RawBytes = [], Timestamp = \<lparr>WallTime = wall, Logical = 0\<rparr>\<rparr>\<rparr>"

definition exampleSpan :: Span where
  "exampleSpan = \<lparr>SpanKey = [1], EndKey = [9]\<rparr>"

definition exampleFrontierOps :: "(Span \<times> Timestamp) list FrontierOps" where
  "exampleFrontierOps =
     \<lparr>Forward = (\<lambda>fr sp ts.
                   (map (\<lambda>(sp', ts'). if sp' = sp \<and> Less ts' ts then (sp', ts) else (sp', ts')) fr,
                    None)),
      Entries = (\<lambda>fr. fr),
      Frontier = (\<lambda>fr. foldr (\<lambda>(sp, ts) m. if Less ts m then ts else m) fr MaxTimestamp)\<rparr>"

definition exampleSettings :: Settings where
  "exampleSettings =
     \<lparr>targetKVBufferLen = 1, maxKVBufferSize = 100, flushBatchSize = 2, quantize = 5\<rparr>"

definition exampleSize :: "KeyValue \<Rightarrow> int" where
  "exampleSize kv = int (length (Key kv)) + 12"

definition exampleState :: "(Span \<times> Timestamp) list logicalReplicationWriterProcessor" where
  "exampleState =
     \<lparr>InitialScanTimestamp = \<lparr>WallTime = 0, Logical = 0\<rparr>,
      buffer = addKV exampleSize (exampleKV [1, 2] 7) NewIngestionBuffer,
      frontier = [(exampleSpan, \<lparr>WallTime = 10, Logical = 0\<rparr>),
                  (\<lparr>SpanKey = [9], EndKey = [12]\<rparr>, \<lparr>WallTime = 0, Logical = 0\<rparr>)],
      lastFlushTime = 0,
      lastFlushFrontier = \<lparr>WallTime = 0, Logical = 0\<rparr>,
      flushInProgress = False,
      flushCh = [],
      FlushOnSize = 0,
      FlushOnTime = 0,
      CheckpointEvents = 0\<rparr>"

text \<open>
  For the batch applier: a split-safe key that keeps the first byte of a key, a
  batch handler that accepts every batch and reports its size, and a unit whose
  buffer holds four mutations, three of them with the same split-safe key.
\<close>

definition exampleSafeSplitKey :: "Key \<Rightarrow> Key option" where
  "exampleSafeSplitKey key = (case key of [] \<Rightarrow> None | x # rest \<Rightarrow> Some [x])"

definition exampleHandler :: BatchHandler where
  "exampleHandler n batch = Inr (sum_list (map exampleSize batch))"

definition exampleFlushable :: flushableBuffer where
  "exampleFlushable =
     \<lparr>fbBuffer =
        \<lparr>curKVBatch = [exampleKV [2, 0] 9, exampleKV [1, 0] 5, exampleKV [1, 1] 3, exampleKV [1, 2] 4],
         curKVBatchSize = 56,
         minTimestamp = \<lparr>WallTime = 3, Logical = 0\<rparr>\<rparr>,
      checkpoint = [\<lparr>RSpan = exampleSpan, RTimestamp = \<lparr>WallTime = 10, Logical = 0\<rparr>\<rparr>]\<rparr>"

section \<open>The order of timestamps\<close>

lemma word_eq_sint: "a = b \<longleftrightarrow> sint a = sint b"
  by (auto intro: signed_word_eqI)

lemmas ts_defs = Less_def LessEq_def After_def word_sless_alt word_sle_eq

lemma LessEq_refl: "LessEq t t"
  by (simp add: LessEq_def)

lemma LessEq_total: "LessEq t s \<or> LessEq s t"
  by (auto simp: ts_defs word_eq_sint)

lemma LessEq_trans: "LessEq a b \<Longrightarrow> LessEq b c \<Longrightarrow> LessEq a c"
  by (auto simp: ts_defs word_eq_sint)

lemma Timestamp_eqI: "WallTime a = WallTime b \<Longrightarrow> Logical a = Logical b \<Longrightarrow> a = b"
  for a b :: Timestamp
  by simp

lemma LessEq_antisym: "LessEq a b \<Longrightarrow> LessEq b a \<Longrightarrow> a = b"
  by (rule Timestamp_eqI) (auto simp: ts_defs word_eq_sint)

lemma Less_iff_not_LessEq: "Less t s \<longleftrightarrow> \<not> LessEq s t"
  by (auto simp: ts_defs word_eq_sint)

lemma LessEq_MaxTimestamp: "LessEq t MaxTimestamp"
proof -
  have w: "sint (WallTime t) \<le> 0x7FFFFFFFFFFFFFFF"
    using sint_lt [of "WallTime t"] by simp
  have l: "sint (Logical t) \<le> 0x7FFFFFFF"
    using sint_lt [of "Logical t"] by simp
  show ?thesis
    using w l
    by (auto simp: LessEq_def MaxTimestamp_def word_sless_alt word_sle_eq word_eq_sint)
qed

lemma Timestamp_Compare_le0: "Timestamp_Compare a b \<le> 0 \<longleftrightarrow> LessEq a b"
  by (auto simp: Timestamp_Compare_def ts_defs word_eq_sint)

section \<open>Buffer accounting\<close>

lemma reset_eq: "reset b = NewIngestionBuffer"
  by (simp add: reset_def NewIngestionBuffer_def)

lemma fold_addKV_batch: "curKVBatch (fold (addKV sz) kvs b) = curKVBatch b @ kvs"
  by (induction kvs arbitrary: b) (simp_all add: addKV_def)

lemma fold_addKV_size:
  "curKVBatchSize (fold (addKV sz) kvs b) = curKVBatchSize b + sum_list (map sz kvs)"
  by (induction kvs arbitrary: b) (simp_all add: addKV_def)

lemma fold_addKV_min_lower:
  "LessEq (minTimestamp (fold (addKV sz) kvs b)) (minTimestamp b)
   \<and> (\<forall>kv \<in> set kvs. LessEq (minTimestamp (fold (addKV sz) kvs b)) (Timestamp (Value kv)))"
proof (induction kvs arbitrary: b)
  case Nil
  show ?case by (simp add: LessEq_refl)
next
  case (Cons kv kvs)
  let ?b = "addKV sz kv b"
  have step: "LessEq (minTimestamp ?b) (minTimestamp b)"
             "LessEq (minTimestamp ?b) (Timestamp (Value kv))"
    using LessEq_total [of "minTimestamp b" "Timestamp (Value kv)"]
    by (auto simp: addKV_def Less_iff_not_LessEq LessEq_refl)
  from Cons.IH [of ?b] step show ?case
    by (auto intro: LessEq_trans)
qed

lemma fold_addKV_min_attained:
  "minTimestamp (fold (addKV sz) kvs b) = minTimestamp b
   \<or> (\<exists>kv \<in> set kvs. minTimestamp (fold (addKV sz) kvs b) = Timestamp (Value kv))"
proof (induction kvs arbitrary: b)
  case Nil
  show ?case by simp
next
  case (Cons kv kvs)
  from Cons.IH [of "addKV sz kv b"] show ?case
    by (auto simp: addKV_def split: if_splits)
qed

lemma fresh_min_attained:
  assumes "kvs \<noteq> []"
  shows "\<exists>kv \<in> set kvs.
           minTimestamp (fold (addKV sz) kvs NewIngestionBuffer) = Timestamp (Value kv)"
proof -
  let ?m = "minTimestamp (fold (addKV sz) kvs NewIngestionBuffer)"
  from fold_addKV_min_attained [of sz kvs NewIngestionBuffer]
  consider "?m = MaxTimestamp" | "\<exists>kv \<in> set kvs. ?m = Timestamp (Value kv)"
    by (auto simp: NewIngestionBuffer_def)
  then show ?thesis
  proof cases
    case 1
    from assms obtain kv where kv: "kv \<in> set kvs"
      by (cases kvs) auto
    with fold_addKV_min_lower [of sz kvs NewIngestionBuffer]
    have "LessEq ?m (Timestamp (Value kv))" by blast
    with 1 have "Timestamp (Value kv) = MaxTimestamp"
      using LessEq_MaxTimestamp [of "Timestamp (Value kv)"]
      by (auto intro: LessEq_antisym)
    with 1 have "?m = Timestamp (Value kv)" by simp
    with kv show ?thesis by blast
  next
    case 2
    then show ?thesis .
  qed
qed

text \<open>
  Claim C8. After any sequence of \<^verbatim>\<open>addKV\<close> calls on a reset buffer (which is
  the fresh buffer), the batch holds the pairs added, \<^verbatim>\<open>curKVBatchSize\<close> is the
  sum of their sizes, and \<^verbatim>\<open>minTimestamp\<close> is the least of their value
  timestamps: \<^verbatim>\<open>hlc.MaxTimestamp\<close> when none was added, otherwise the timestamp
  of one of them that is below or equal to the timestamp of each. A reset
  gives the empty state back: length zero, size zero, \<^verbatim>\<open>hlc.MaxTimestamp\<close>.
\<close>

theorem buffer_accounting:
  "reset b0 = NewIngestionBuffer
   \<and> curKVBatch (fold (addKV sz) kvs (reset b0)) = kvs
   \<and> curKVBatchSize (fold (addKV sz) kvs (reset b0)) = sum_list (map sz kvs)
   \<and> (kvs = [] \<longrightarrow> minTimestamp (fold (addKV sz) kvs (reset b0)) = MaxTimestamp)
   \<and> (kvs \<noteq> [] \<longrightarrow>
        (\<exists>kv \<in> set kvs. minTimestamp (fold (addKV sz) kvs (reset b0)) = Timestamp (Value kv)))
   \<and> (\<forall>kv \<in> set kvs. LessEq (minTimestamp (fold (addKV sz) kvs (reset b0))) (Timestamp (Value kv)))
   \<and> length (curKVBatch (reset (fold (addKV sz) kvs (reset b0)))) = 0
   \<and> curKVBatchSize (reset (fold (addKV sz) kvs (reset b0))) = 0
   \<and> minTimestamp (reset (fold (addKV sz) kvs (reset b0))) = MaxTimestamp"
proof -
  have "kvs \<noteq> [] \<longrightarrow>
        (\<exists>kv \<in> set kvs. minTimestamp (fold (addKV sz) kvs NewIngestionBuffer) = Timestamp (Value kv))"
    using fresh_min_attained by blast
  moreover have "\<forall>kv \<in> set kvs.
      LessEq (minTimestamp (fold (addKV sz) kvs NewIngestionBuffer)) (Timestamp (Value kv))"
    using fold_addKV_min_lower [of sz kvs NewIngestionBuffer] by blast
  moreover have "curKVBatch (fold (addKV sz) kvs NewIngestionBuffer) = kvs"
    by (simp add: fold_addKV_batch NewIngestionBuffer_def)
  moreover have "curKVBatchSize (fold (addKV sz) kvs NewIngestionBuffer) = sum_list (map sz kvs)"
    by (simp add: fold_addKV_size NewIngestionBuffer_def)
  moreover have "kvs = [] \<longrightarrow> minTimestamp (fold (addKV sz) kvs NewIngestionBuffer) = MaxTimestamp"
    by (simp add: NewIngestionBuffer_def)
  ultimately show ?thesis
    by (simp add: reset_eq) (simp add: NewIngestionBuffer_def)
qed

theorem buffer_accounting_witness:
  "[exampleKV [1, 2] 7, exampleKV [3] 4] \<noteq> []
   \<and> exampleKV [3] 4 \<in> set [exampleKV [1, 2] 7, exampleKV [3] 4]
   \<and> curKVBatchSize (fold (addKV exampleSize) [exampleKV [1, 2] 7, exampleKV [3] 4]
        (reset NewIngestionBuffer)) = 27
   \<and> LessEq (minTimestamp (fold (addKV exampleSize) [exampleKV [1, 2] 7, exampleKV [3] 4]
        (reset NewIngestionBuffer))) (Timestamp (Value (exampleKV [3] 4)))"
  using buffer_accounting [of NewIngestionBuffer exampleSize "[exampleKV [1, 2] 7, exampleKV [3] 4]"]
  by (simp add: exampleKV_def exampleSize_def reset_def addKV_def NewIngestionBuffer_def
      MaxTimestamp_def ts_defs)

section \<open>Flush thresholds\<close>

text \<open>
  Claim C4, as stated, fails where the hard limit is not positive: with a limit
  of zero an empty buffer has a byte size at least the limit, and the answer is
  \<^verbatim>\<open>(false, false)\<close>.
\<close>

theorem shouldFlushOnKVSize_zero_limit_counterexample:
  "maxKVBufferSize \<lparr>targetKVBufferLen = 32, maxKVBufferSize = 0, flushBatchSize = 32, quantize = 0\<rparr>
     \<le> curKVBatchSize \<lparr>curKVBatch = [], curKVBatchSize = 0, minTimestamp = MaxTimestamp\<rparr>
   \<and> shouldFlushOnKVSize
        \<lparr>targetKVBufferLen = 32, maxKVBufferSize = 0, flushBatchSize = 32, quantize = 0\<rparr>
        \<lparr>curKVBatch = [], curKVBatchSize = 0, minTimestamp = MaxTimestamp\<rparr> = (False, False)"
  by (simp add: shouldFlushOnKVSize_def)

text \<open>
  Claim C4, amended. \<^verbatim>\<open>shouldFlushOnKVSize\<close> answers \<^verbatim>\<open>(true, true)\<close> when the
  hard maximum byte size is positive and the byte size of the buffer is at
  least it; \<^verbatim>\<open>(true, false)\<close> when the row count is at least the soft target
  length and the byte size is below the hard limit; \<^verbatim>\<open>(false, false)\<close> when
  the buffer is below both thresholds.
\<close>

theorem shouldFlushOnKVSize_thresholds:
  "(0 < maxKVBufferSize sv \<and> maxKVBufferSize sv \<le> curKVBatchSize b \<longrightarrow>
      shouldFlushOnKVSize sv b = (True, True))
   \<and> (targetKVBufferLen sv \<le> int (length (curKVBatch b)) \<and> curKVBatchSize b < maxKVBufferSize sv \<longrightarrow>
      shouldFlushOnKVSize sv b = (True, False))
   \<and> (int (length (curKVBatch b)) < targetKVBufferLen sv \<and> curKVBatchSize b < maxKVBufferSize sv \<longrightarrow>
      shouldFlushOnKVSize sv b = (False, False))"
  by (simp add: shouldFlushOnKVSize_def)

theorem shouldFlushOnKVSize_thresholds_witness:
  "(0 < maxKVBufferSize exampleSettings
      \<and> maxKVBufferSize exampleSettings \<le> curKVBatchSize (buffer exampleState\<lparr>curKVBatchSize := 100\<rparr>)
      \<and> shouldFlushOnKVSize exampleSettings (buffer exampleState\<lparr>curKVBatchSize := 100\<rparr>) = (True, True))
   \<and> (targetKVBufferLen exampleSettings \<le> int (length (curKVBatch (buffer exampleState)))
      \<and> curKVBatchSize (buffer exampleState) < maxKVBufferSize exampleSettings
      \<and> shouldFlushOnKVSize exampleSettings (buffer exampleState) = (True, False))
   \<and> (int (length (curKVBatch NewIngestionBuffer)) < targetKVBufferLen exampleSettings
      \<and> curKVBatchSize NewIngestionBuffer < maxKVBufferSize exampleSettings
      \<and> shouldFlushOnKVSize exampleSettings NewIngestionBuffer = (False, False))"
  using shouldFlushOnKVSize_thresholds [of exampleSettings "buffer exampleState\<lparr>curKVBatchSize := 100\<rparr>"]
    shouldFlushOnKVSize_thresholds [of exampleSettings "buffer exampleState"]
    shouldFlushOnKVSize_thresholds [of exampleSettings NewIngestionBuffer]
  by (simp add: exampleSettings_def exampleState_def NewIngestionBuffer_def addKV_def
      exampleKV_def exampleSize_def)

text \<open>
  Claim C10. When the hard maximum byte size is zero or negative,
  \<^verbatim>\<open>shouldFlushOnKVSize\<close> never answers \<^verbatim>\<open>mustFlush\<close>, whatever the buffer
  holds; when the target length is zero or negative it answers \<^verbatim>\<open>shouldFlush\<close>
  for every buffer, the empty one too.
\<close>

theorem shouldFlushOnKVSize_nonpositive_settings:
  "(maxKVBufferSize sv \<le> 0 \<longrightarrow> \<not> snd (shouldFlushOnKVSize sv b))
   \<and> (targetKVBufferLen sv \<le> 0 \<longrightarrow>
        fst (shouldFlushOnKVSize sv b) \<and> fst (shouldFlushOnKVSize sv NewIngestionBuffer))"
  by (auto simp: shouldFlushOnKVSize_def Let_def)

theorem shouldFlushOnKVSize_nonpositive_settings_witness:
  "maxKVBufferSize (exampleSettings\<lparr>maxKVBufferSize := 0, targetKVBufferLen := - 1\<rparr>) \<le> 0
   \<and> targetKVBufferLen (exampleSettings\<lparr>maxKVBufferSize := 0, targetKVBufferLen := - 1\<rparr>) \<le> 0
   \<and> \<not> snd (shouldFlushOnKVSize (exampleSettings\<lparr>maxKVBufferSize := 0, targetKVBufferLen := - 1\<rparr>)
             (buffer exampleState\<lparr>curKVBatchSize := 1000\<rparr>))
   \<and> fst (shouldFlushOnKVSize (exampleSettings\<lparr>maxKVBufferSize := 0, targetKVBufferLen := - 1\<rparr>)
             NewIngestionBuffer)"
  using shouldFlushOnKVSize_nonpositive_settings
    [of "exampleSettings\<lparr>maxKVBufferSize := 0, targetKVBufferLen := - 1\<rparr>"
        "buffer exampleState\<lparr>curKVBatchSize := 1000\<rparr>"]
  by simp

section \<open>Quantized checkpoints\<close>











section \<open>The flush coordinator and the events\<close>

lemmas example_defs = exampleState_def exampleSettings_def exampleFrontierOps_def exampleKV_def
  exampleSize_def exampleSpan_def NewIngestionBuffer_def addKV_def MaxTimestamp_def





text \<open>
  Claim C5. \<^verbatim>\<open>maybeFlush\<close> returns no error and leaves the whole processor state
  as it is when a flush is in flight, or when the buffer holds no mutation and
  the frontier is at or below the last flushed frontier; in every other case
  it is \<^verbatim>\<open>flush\<close>.
\<close>

theorem maybeFlush_noop_or_flush:
  "(flushInProgress lrw
      \<or> (length (curKVBatch (buffer lrw)) = 0
          \<and> LessEq (Frontier fo (frontier lrw)) (lastFlushFrontier lrw)) \<longrightarrow>
        maybeFlush fo h reason lrw = (None, lrw))
   \<and> (\<not> flushInProgress lrw
      \<and> \<not> (length (curKVBatch (buffer lrw)) = 0
            \<and> LessEq (Frontier fo (frontier lrw)) (lastFlushFrontier lrw)) \<longrightarrow>
        maybeFlush fo h reason lrw = flush fo h reason lrw)"
  by (simp add: maybeFlush_def)

theorem maybeFlush_noop_or_flush_witness:
  "flushInProgress (exampleState\<lparr>flushInProgress := True\<rparr>)
   \<and> maybeFlush exampleFrontierOps (Accepted 1) flushOnTime (exampleState\<lparr>flushInProgress := True\<rparr>)
       = (None, exampleState\<lparr>flushInProgress := True\<rparr>)
   \<and> length (curKVBatch (buffer (exampleState\<lparr>buffer := NewIngestionBuffer\<rparr>))) = 0
   \<and> LessEq (Frontier exampleFrontierOps (frontier (exampleState\<lparr>buffer := NewIngestionBuffer\<rparr>)))
        (lastFlushFrontier (exampleState\<lparr>buffer := NewIngestionBuffer\<rparr>))
   \<and> maybeFlush exampleFrontierOps (Accepted 1) flushOnTime (exampleState\<lparr>buffer := NewIngestionBuffer\<rparr>)
       = (None, exampleState\<lparr>buffer := NewIngestionBuffer\<rparr>)
   \<and> \<not> flushInProgress exampleState
   \<and> length (curKVBatch (buffer exampleState)) \<noteq> 0
   \<and> maybeFlush exampleFrontierOps (Accepted 1) flushOnTime exampleState
       = flush exampleFrontierOps (Accepted 1) flushOnTime exampleState"
  using maybeFlush_noop_or_flush
      [of "exampleState\<lparr>flushInProgress := True\<rparr>" exampleFrontierOps "Accepted 1" flushOnTime]
    maybeFlush_noop_or_flush
      [of "exampleState\<lparr>buffer := NewIngestionBuffer\<rparr>" exampleFrontierOps "Accepted 1" flushOnTime]
    maybeFlush_noop_or_flush [of exampleState exampleFrontierOps "Accepted 1" flushOnTime]
  by (simp add: example_defs ts_defs)




section \<open>Sorting by split-safe key and timestamp\<close>

lemma Key_Compare_le0: "Key_Compare a b \<le> 0 \<longleftrightarrow> a \<le> b"
  by (auto simp: Key_Compare_def)

lemma Key_Compare_eq0: "Key_Compare a b = 0 \<longleftrightarrow> a = b"
  by (auto simp: Key_Compare_def)

lemma sortCmp_le0:
  "sortCmp essk a b \<le> 0 \<longleftrightarrow>
     k essk a < k essk b
     \<or> (k essk a = k essk b \<and> LessEq (Timestamp (Value a)) (Timestamp (Value b)))"
  by (auto simp: sortCmp_def Let_def Key_Compare_def Timestamp_Compare_le0)

lemma sortCmp_total: "sortCmp essk a b \<le> 0 \<or> sortCmp essk b a \<le> 0"
  using LessEq_total [of "Timestamp (Value a)" "Timestamp (Value b)"]
  by (auto simp: sortCmp_le0)

lemma sortCmp_trans:
  "sortCmp essk a b \<le> 0 \<Longrightarrow> sortCmp essk b c \<le> 0 \<Longrightarrow> sortCmp essk a c \<le> 0"
  by (auto simp: sortCmp_le0 intro: LessEq_trans)

lemma set_insertFunc: "set (insertFunc cmp x ys) = insert x (set ys)"
  by (induction ys) auto

lemma mset_insertFunc: "mset (insertFunc cmp x ys) = add_mset x (mset ys)"
  by (induction ys) auto

lemma mset_SortFunc: "mset (SortFunc cmp xs) = mset xs"
  by (induction xs) (simp_all add: SortFunc_def mset_insertFunc)

lemma length_SortFunc: "length (SortFunc cmp xs) = length xs"
  using mset_SortFunc [of cmp xs] by (metis size_mset)

lemma sorted_insertFunc:
  assumes total: "\<And>a b. cmp a b \<le> 0 \<or> cmp b a \<le> 0"
    and trans: "\<And>a b c. cmp a b \<le> 0 \<Longrightarrow> cmp b c \<le> 0 \<Longrightarrow> cmp a c \<le> 0"
  shows "sorted_wrt (\<lambda>a b. cmp a b \<le> 0) ys \<Longrightarrow> sorted_wrt (\<lambda>a b. cmp a b \<le> 0) (insertFunc cmp x ys)"
proof (induction ys)
  case Nil
  show ?case by simp
next
  case (Cons y ys)
  show ?case
  proof (cases "cmp x y \<le> 0")
    case True
    with Cons.prems show ?thesis
      by (auto intro: trans)
  next
    case False
    with total [of x y] have "cmp y x \<le> 0" by blast
    with False Cons show ?thesis
      by (auto simp: set_insertFunc)
  qed
qed

lemma sorted_SortFunc:
  assumes total: "\<And>a b. cmp a b \<le> 0 \<or> cmp b a \<le> 0"
    and trans: "\<And>a b c. cmp a b \<le> 0 \<Longrightarrow> cmp b c \<le> 0 \<Longrightarrow> cmp a c \<le> 0"
  shows "sorted_wrt (\<lambda>a b. cmp a b \<le> 0) (SortFunc cmp xs)"
proof (induction xs)
  case Nil
  show ?case by (simp add: SortFunc_def)
next
  case (Cons x xs)
  then show ?case
    using sorted_insertFunc [of cmp "SortFunc cmp xs" x, OF total trans]
    by (simp add: SortFunc_def)
qed

lemma sorted_sortedKVs: "sorted_wrt (\<lambda>a b. sortCmp essk a b \<le> 0) (sortedKVs essk b)"
  unfolding sortedKVs_def
  by (rule sorted_SortFunc) (rule sortCmp_total, erule sortCmp_trans, assumption)

lemma sorted_keys_mono:
  assumes "sorted_wrt (\<lambda>a b. sortCmp essk a b \<le> 0) kvs" "i \<le> j" "j < length kvs"
  shows "k essk (kvs ! i) \<le> k essk (kvs ! j)"
proof (cases "i = j")
  case True
  then show ?thesis by simp
next
  case False
  with assms have "sortCmp essk (kvs ! i) (kvs ! j) \<le> 0"
    by (simp add: sorted_wrt_iff_nth_less)
  then show ?thesis
    by (auto simp: sortCmp_le0)
qed

lemma extendChunkEnd_props:
  "0 < c \<Longrightarrow> c \<le> length kvs \<Longrightarrow>
   \<exists>e. extendChunkEnd kf kvs c = Inr e \<and> c \<le> e \<and> e \<le> length kvs
       \<and> (e < length kvs \<longrightarrow> kf (kvs ! (e - 1)) \<noteq> kf (kvs ! e))"
proof (induction kf kvs c rule: extendChunkEnd.induct)
  case (1 kf kvs chunkEnd)
  show ?case
  proof (cases "chunkEnd < length kvs \<and> kf (kvs ! (chunkEnd - 1)) = kf (kvs ! chunkEnd)")
    case True
    with "1.prems" "1.IH" obtain e where
      "extendChunkEnd kf kvs (chunkEnd + 1) = Inr e" "chunkEnd + 1 \<le> e" "e \<le> length kvs"
      "e < length kvs \<longrightarrow> kf (kvs ! (e - 1)) \<noteq> kf (kvs ! e)"
      by (auto simp: Key_Equal_def)
    with True "1.prems" show ?thesis
      by (subst extendChunkEnd.simps) (auto simp: Key_Equal_def)
  next
    case False
    with "1.prems" show ?thesis
      by (subst extendChunkEnd.simps) (auto simp: Key_Equal_def)
  qed
qed

section \<open>Chunk assignment\<close>

text \<open>What the loop over the workers establishes.\<close>

lemma chunkLoop_props:
  assumes size: "0 < chunkSize"
  shows "cs \<le> length kvs \<Longrightarrow>
    \<exists>ws cs'. chunkLoop kf kvs chunkSize hs cs = Inr (ws, cs')
      \<and> cs \<le> cs' \<and> cs' \<le> length kvs
      \<and> min (length kvs) (cs + length hs * chunkSize) \<le> cs'
      \<and> (\<forall>i. cs \<le> i \<and> i < cs' \<longrightarrow> (\<exists>(h, s, e) \<in> set ws. s \<le> i \<and> i < e))
      \<and> (\<forall>(h, s, e) \<in> set ws.
            cs \<le> s \<and> s < e \<and> e \<le> cs'
            \<and> (e < length kvs \<longrightarrow> kf (kvs ! (e - 1)) \<noteq> kf (kvs ! e))
            \<and> (s = cs \<or> kf (kvs ! (s - 1)) \<noteq> kf (kvs ! s)))"
proof (induction hs arbitrary: cs)
  case Nil
  then show ?case by simp
next
  case (Cons bh rest)
  show ?case
  proof (cases "length kvs \<le> cs")
    case True
    with Cons.prems show ?thesis by simp
  next
    case False
    let ?c = "min (cs + chunkSize) (length kvs)"
    from False size have c: "0 < ?c" "?c \<le> length kvs" "cs < ?c"
      by auto
    from extendChunkEnd_props [OF c(1) c(2), of kf] obtain e1 where
      e1: "extendChunkEnd kf kvs ?c = Inr e1" "?c \<le> e1" "e1 \<le> length kvs"
        "e1 < length kvs \<longrightarrow> kf (kvs ! (e1 - 1)) \<noteq> kf (kvs ! e1)"
      by blast
    from Cons.IH [OF e1(3)] obtain ws cs' where
      ih: "chunkLoop kf kvs chunkSize rest e1 = Inr (ws, cs')"
        "e1 \<le> cs'" "cs' \<le> length kvs"
        "min (length kvs) (e1 + length rest * chunkSize) \<le> cs'"
        "\<forall>i. e1 \<le> i \<and> i < cs' \<longrightarrow> (\<exists>(h, s, e) \<in> set ws. s \<le> i \<and> i < e)"
        "\<forall>(h, s, e) \<in> set ws.
            e1 \<le> s \<and> s < e \<and> e \<le> cs'
            \<and> (e < length kvs \<longrightarrow> kf (kvs ! (e - 1)) \<noteq> kf (kvs ! e))
            \<and> (s = e1 \<or> kf (kvs ! (s - 1)) \<noteq> kf (kvs ! s))"
      by blast
    have cs_e1: "cs < e1"
      using c(3) e1(2) by (rule less_le_trans)
    have res: "chunkLoop kf kvs chunkSize (bh # rest) cs = Inr ((bh, cs, e1) # ws, cs')"
      using False e1(1) ih(1) by simp
    have bound: "min (length kvs) (cs + length (bh # rest) * chunkSize) \<le> cs'"
    proof (cases "cs + chunkSize \<le> length kvs")
      case True
      then have "cs + chunkSize \<le> e1" using e1(2) by simp
      then have "cs + length (bh # rest) * chunkSize \<le> e1 + length rest * chunkSize"
        by simp
      with ih(4) show ?thesis by simp
    next
      case False
      then have "e1 = length kvs" using e1(2) e1(3) by simp
      with ih(2) ih(3) show ?thesis by simp
    qed
    have cover: "\<exists>(h, s, e) \<in> set ((bh, cs, e1) # ws). s \<le> i \<and> i < e"
      if "cs \<le> i \<and> i < cs'" for i
    proof (cases "i < e1")
      case True
      with that show ?thesis by simp
    next
      case False
      with that ih(5) have "\<exists>(h, s, e) \<in> set ws. s \<le> i \<and> i < e" by simp
      then show ?thesis by auto
    qed
    have first: "cs \<le> cs \<and> cs < e1 \<and> e1 \<le> cs'
        \<and> (e1 < length kvs \<longrightarrow> kf (kvs ! (e1 - 1)) \<noteq> kf (kvs ! e1))
        \<and> (cs = cs \<or> kf (kvs ! (cs - 1)) \<noteq> kf (kvs ! cs))"
      using cs_e1 e1(4) ih(2) by simp
    have others: "cs \<le> s \<and> s < e \<and> e \<le> cs'
        \<and> (e < length kvs \<longrightarrow> kf (kvs ! (e - 1)) \<noteq> kf (kvs ! e))
        \<and> (s = cs \<or> kf (kvs ! (s - 1)) \<noteq> kf (kvs ! s))"
      if "(h, s, e) \<in> set ws" for h s e
    proof -
      from that ih(6) have w: "e1 \<le> s" "s < e" "e \<le> cs'"
        "e < length kvs \<longrightarrow> kf (kvs ! (e - 1)) \<noteq> kf (kvs ! e)"
        "s = e1 \<or> kf (kvs ! (s - 1)) \<noteq> kf (kvs ! s)"
        by auto
      have "kf (kvs ! (s - 1)) \<noteq> kf (kvs ! s)"
      proof (cases "s = e1")
        case True
        with w(2) w(3) ih(3) have "e1 < length kvs" by simp
        with e1(4) True show ?thesis by simp
      next
        case False
        with w(5) show ?thesis by simp
      qed
      with w cs_e1 show ?thesis by simp
    qed
    from res ih(2) ih(3) cs_e1 bound cover first others show ?thesis
      by (intro exI [of _ "(bh, cs, e1) # ws"] exI [of _ cs']) auto
  qed
qed

lemma pool_covers: "0 < n \<Longrightarrow> len < n * max (len div n + 1) bs" for n len bs :: nat
proof -
  assume n: "0 < n"
  have "len < n + n * (len div n)"
    using n by (rule dividend_less_times_div)
  also have "\<dots> = n * (len div n + 1)" by simp
  also have "\<dots> \<le> n * max (len div n + 1) bs"
    by (intro mult_le_mono2 max.cobounded1)
  finally show ?thesis .
qed

lemma assignChunks_props:
  assumes "bh \<noteq> []"
  shows "\<exists>ws. assignChunks essk bh bs b = Inr (ws, length (sortedKVs essk b))
      \<and> (\<forall>i < length (sortedKVs essk b). \<exists>(h, s, e) \<in> set ws. s \<le> i \<and> i < e)
      \<and> (\<forall>(h, s, e) \<in> set ws.
            s < e \<and> e \<le> length (sortedKVs essk b)
            \<and> (e < length (sortedKVs essk b) \<longrightarrow>
                 k essk (sortedKVs essk b ! (e - 1)) \<noteq> k essk (sortedKVs essk b ! e))
            \<and> (s = 0 \<or> k essk (sortedKVs essk b ! (s - 1)) \<noteq> k essk (sortedKVs essk b ! s)))"
proof -
  let ?kvs = "sortedKVs essk b"
  let ?size = "max (length ?kvs div length bh + 1) bs"
  have size: "0 < ?size" by simp
  from chunkLoop_props [OF size, of 0 ?kvs "k essk" bh] obtain ws cs' where
    r: "chunkLoop (k essk) ?kvs ?size bh 0 = Inr (ws, cs')"
      "cs' \<le> length ?kvs"
      "min (length ?kvs) (0 + length bh * ?size) \<le> cs'"
      "\<forall>i. 0 \<le> i \<and> i < cs' \<longrightarrow> (\<exists>(h, s, e) \<in> set ws. s \<le> i \<and> i < e)"
      "\<forall>(h, s, e) \<in> set ws.
            0 \<le> s \<and> s < e \<and> e \<le> cs'
            \<and> (e < length ?kvs \<longrightarrow> k essk (?kvs ! (e - 1)) \<noteq> k essk (?kvs ! e))
            \<and> (s = 0 \<or> k essk (?kvs ! (s - 1)) \<noteq> k essk (?kvs ! s))"
    by auto
  from assms have "length ?kvs < length bh * ?size"
    by (intro pool_covers) simp
  with r(2) r(3) have cs': "cs' = length ?kvs" by simp
  from assms r(1) have "assignChunks essk bh bs b = Inr (ws, length ?kvs)"
    by (simp add: assignChunks_def Let_def cs')
  moreover from r(4) have "\<forall>i < length ?kvs. \<exists>(h, s, e) \<in> set ws. s \<le> i \<and> i < e"
    by (simp add: cs')
  moreover from r(5) have "\<forall>(h, s, e) \<in> set ws.
            s < e \<and> e \<le> length ?kvs
            \<and> (e < length ?kvs \<longrightarrow> k essk (?kvs ! (e - 1)) \<noteq> k essk (?kvs ! e))
            \<and> (s = 0 \<or> k essk (?kvs ! (s - 1)) \<noteq> k essk (?kvs ! s))"
    by (auto simp: cs')
  ultimately show ?thesis by blast
qed

lemma assignChunks_empty_pool: "assignChunks essk [] bs b = Inl DivideByZero"
  by (simp add: assignChunks_def)

lemma flushBuffer_no_assertion: "flushBuffer essk bh bs b \<noteq> Some (FlushPanic AssertionFailed)"
proof (cases "bh = []")
  case True
  then show ?thesis
    by (simp add: flushBuffer_def assignChunks_empty_pool)
next
  case False
  from assignChunks_props [OF False, of essk bs b] obtain ws where
    "assignChunks essk bh bs b = Inr (ws, length (sortedKVs essk b))"
    by blast
  then show ?thesis
    by (simp add: flushBuffer_def split: option.splits)
qed

text \<open>Equal split-safe keys lie on the same side of every chunk boundary.\<close>

lemma no_boundary_between_equal_keys:
  assumes sorted: "sorted_wrt (\<lambda>a b. sortCmp essk a b \<le> 0) kvs"
    and ij: "i < c" "c \<le> j" "j < length kvs"
    and eq: "k essk (kvs ! i) = k essk (kvs ! j)"
  shows "k essk (kvs ! (c - 1)) = k essk (kvs ! c)"
proof -
  from ij have "k essk (kvs ! i) \<le> k essk (kvs ! (c - 1))"
    by (intro sorted_keys_mono [OF sorted]) simp_all
  moreover from ij have "k essk (kvs ! (c - 1)) \<le> k essk (kvs ! c)"
    by (intro sorted_keys_mono [OF sorted]) simp_all
  moreover from ij have "k essk (kvs ! c) \<le> k essk (kvs ! j)"
    by (intro sorted_keys_mono [OF sorted]) simp_all
  ultimately show ?thesis using eq by simp
qed

lemma assignChunks_Inr:
  assumes "assignChunks essk bh bs b = Inr (workers, chunkStart)"
  shows "bh \<noteq> []"
  using assms by (auto simp: assignChunks_def)

section \<open>The workers and the result of a flush\<close>

lemma slice_append: "lo \<le> mid \<Longrightarrow> mid \<le> hi \<Longrightarrow> slice xs lo mid @ slice xs mid hi = slice xs lo hi"
proof -
  assume a: "lo \<le> mid" "mid \<le> hi"
  have "take (hi - lo) (drop lo xs) = take (mid - lo) (drop lo xs) @ take (hi - mid) (drop mid xs)"
    using a take_add [of "mid - lo" "hi - mid" "drop lo xs"] by simp
  then show ?thesis by (simp add: slice_def)
qed

lemma slice_empty: "slice xs lo lo = []"
  by (simp add: slice_def)

lemma workerLoop_terminates:
  assumes "0 < bs"
  shows "workerLoop h kvs bs e s applied bytes \<noteq> None"
proof (induction "e - s" arbitrary: s applied bytes rule: less_induct)
  case less
  show ?case
  proof (cases "s < e")
    case False
    then show ?thesis by (subst workerLoop.simps) simp
  next
    case True
    let ?batchEnd = "min (s + bs) e"
    let ?batch = "slice kvs s ?batchEnd"
    show ?thesis
    proof (cases "h (length applied) ?batch")
      case (Inl err)
      with True show ?thesis by (subst workerLoop.simps) (simp add: Let_def)
    next
      case (Inr byteSize)
      from True assms have "e - ?batchEnd < e - s" by auto
      from less [OF this]
      have "workerLoop h kvs bs e ?batchEnd (applied @ [?batch]) (bytes + byteSize) \<noteq> None" .
      with True Inr show ?thesis by (subst workerLoop.simps) (simp add: Let_def)
    qed
  qed
qed

lemma workerLoop_result:
  assumes "workerLoop h kvs bs e s applied bytes = Some (applied', bytes', err)"
  shows "s \<le> e \<longrightarrow>
    (\<exists>m. s \<le> m \<and> m \<le> e \<and> concat applied' = concat applied @ slice kvs s m
       \<and> (err = None \<longrightarrow> m = e))"
  using assms
proof (induction h kvs bs e s applied bytes "(applied', bytes', err)"
    arbitrary: applied' bytes' err rule: workerLoop.raw_induct)
  case (1 loop h kvs bs e s applied bytes)
  show ?case
  proof (cases "s < e")
    case False
    with 1(2) show ?thesis
      by (auto simp: slice_empty)
  next
    case True
    let ?batchEnd = "min (s + bs) e"
    let ?batch = "slice kvs s ?batchEnd"
    show ?thesis
    proof (cases "h (length applied) ?batch")
      case (Inl e')
      with True 1(2) have "applied' = applied @ [?batch]" "err = Some e'"
        by (simp_all add: Let_def)
      then show ?thesis
        by (intro impI exI [of _ ?batchEnd]) (use True in auto)
    next
      case (Inr byteSize)
      with True 1(2) have step:
        "loop h kvs bs e ?batchEnd (applied @ [?batch]) (bytes + byteSize)
          = Some (applied', bytes', err)"
        by (simp add: Let_def)
      have "workerLoop h kvs bs e s applied bytes
          = workerLoop h kvs bs e ?batchEnd (applied @ [?batch]) (bytes + byteSize)"
        using True Inr by (subst workerLoop.simps) (simp add: Let_def)
      with 1(3) have step':
        "workerLoop h kvs bs e ?batchEnd (applied @ [?batch]) (bytes + byteSize)
          = Some (applied', bytes', err)"
        by simp
      from 1(1) [OF step step'] True obtain m where
        m: "?batchEnd \<le> m" "m \<le> e"
          "concat applied' = concat (applied @ [?batch]) @ slice kvs ?batchEnd m"
          "err = None \<longrightarrow> m = e"
        by auto
      have "s \<le> ?batchEnd" using True by simp
      from slice_append [OF this m(1), of kvs] m(3)
      have "concat applied' = concat applied @ slice kvs s m" by simp
      with m show ?thesis
        by (intro impI exI [of _ m]) auto
    qed
  qed
qed (fact assms)

lemma sorted_slice: "sorted_wrt P xs \<Longrightarrow> sorted_wrt P (slice xs lo hi)"
  by (simp add: slice_def sorted_wrt_take sorted_wrt_drop)









section \<open>The batch applier on the example\<close>

lemmas batch_example_defs = exampleFlushable_def exampleKV_def exampleSafeSplitKey_def
  exampleHandler_def exampleSize_def

lemma ex_sorted:
  "sortedKVs exampleSafeSplitKey exampleFlushable
   = [exampleKV [1, 1] 3, exampleKV [1, 2] 4, exampleKV [1, 0] 5, exampleKV [2, 0] 9]"
  by (simp add: sortedKVs_def SortFunc_def sortCmp_def k_def Key_Compare_def Timestamp_Compare_def
      word_sless_alt batch_example_defs)

lemma ex_chunks:
  "assignChunks exampleSafeSplitKey [exampleHandler, exampleHandler, exampleHandler] 2 exampleFlushable
   = Inr ([(exampleHandler, 0, 3), (exampleHandler, 3, 4)], 4)"
  by (simp add: assignChunks_def ex_sorted extendChunkEnd.simps Key_Equal_def k_def
      exampleKV_def exampleSafeSplitKey_def)

lemma ex_worker:
  "workerLoop exampleHandler (sortedKVs exampleSafeSplitKey exampleFlushable) 2 3 0 [] 0
   = Some ([[exampleKV [1, 1] 3, exampleKV [1, 2] 4], [exampleKV [1, 0] 5]], 42, None)"
  by (simp add: ex_sorted workerLoop.simps slice_def exampleHandler_def exampleSize_def exampleKV_def)



section \<open>Key locality, coverage and order\<close>

text \<open>
  Claim C1. For every buffer and every pool of workers, the chunks that
  \<^verbatim>\<open>flushBuffer\<close> assigns keep equal split-safe keys together: the sorted
  sequence is a rearrangement of the buffer, every chunk ends at the end of the
  input or where the split-safe key changes, and a mutation with the same
  split-safe key as a mutation of a chunk is in that chunk too.
\<close>

theorem chunks_keep_equal_keys_together:
  assumes chunks: "assignChunks essk bh bs b = Inr (workers, chunkStart)"
    and worker: "(h, s, e) \<in> set workers"
  shows "mset (sortedKVs essk b) = mset (curKVBatch (fbBuffer b))
    \<and> (e = length (sortedKVs essk b)
        \<or> k essk (sortedKVs essk b ! (e - 1)) \<noteq> k essk (sortedKVs essk b ! e))
    \<and> (\<forall>i j. i < length (sortedKVs essk b) \<and> j < length (sortedKVs essk b)
          \<and> k essk (sortedKVs essk b ! i) = k essk (sortedKVs essk b ! j)
          \<and> s \<le> i \<and> i < e \<longrightarrow> s \<le> j \<and> j < e)"
proof -
  let ?kvs = "sortedKVs essk b"
  from chunks have "bh \<noteq> []" by (rule assignChunks_Inr)
  from assignChunks_props [OF this, of essk bs b] chunks worker
  have w: "s < e" "e \<le> length ?kvs"
    "e < length ?kvs \<longrightarrow> k essk (?kvs ! (e - 1)) \<noteq> k essk (?kvs ! e)"
    "s = 0 \<or> k essk (?kvs ! (s - 1)) \<noteq> k essk (?kvs ! s)"
    by auto
  note sorted = sorted_sortedKVs [of essk b]
  have together: "s \<le> j \<and> j < e"
    if h: "i < length ?kvs \<and> j < length ?kvs \<and> k essk (?kvs ! i) = k essk (?kvs ! j)
          \<and> s \<le> i \<and> i < e" for i j
  proof (rule conjI)
    show "s \<le> j"
    proof (rule ccontr)
      assume "\<not> s \<le> j"
      with h have "j < s" "s \<le> i" "i < length ?kvs" "k essk (?kvs ! j) = k essk (?kvs ! i)"
        by simp_all
      from no_boundary_between_equal_keys [OF sorted this]
      have "k essk (?kvs ! (s - 1)) = k essk (?kvs ! s)" .
      with w(4) \<open>j < s\<close> show False by simp
    qed
    show "j < e"
    proof (rule ccontr)
      assume "\<not> j < e"
      with h have "i < e" "e \<le> j" "j < length ?kvs" "k essk (?kvs ! i) = k essk (?kvs ! j)"
        by simp_all
      from no_boundary_between_equal_keys [OF sorted this]
      have "k essk (?kvs ! (e - 1)) = k essk (?kvs ! e)" .
      with w(3) \<open>e \<le> j\<close> \<open>j < length ?kvs\<close> show False by simp
    qed
  qed
  have "mset ?kvs = mset (curKVBatch (fbBuffer b))"
    by (simp add: sortedKVs_def mset_SortFunc)
  moreover from w(2) w(3) have "e = length ?kvs \<or> k essk (?kvs ! (e - 1)) \<noteq> k essk (?kvs ! e)"
    by auto
  ultimately show ?thesis
    using together by blast
qed

theorem chunks_keep_equal_keys_together_witness:
  "assignChunks exampleSafeSplitKey [exampleHandler, exampleHandler, exampleHandler] 2 exampleFlushable
     = Inr ([(exampleHandler, 0, 3), (exampleHandler, 3, 4)], 4)
   \<and> (exampleHandler, 0, 3) \<in> set [(exampleHandler, 0 :: nat, 3 :: nat), (exampleHandler, 3, 4)]
   \<and> k exampleSafeSplitKey (sortedKVs exampleSafeSplitKey exampleFlushable ! 0)
     = k exampleSafeSplitKey (sortedKVs exampleSafeSplitKey exampleFlushable ! 2)
   \<and> k exampleSafeSplitKey (sortedKVs exampleSafeSplitKey exampleFlushable ! (3 - 1))
     \<noteq> k exampleSafeSplitKey (sortedKVs exampleSafeSplitKey exampleFlushable ! 3)
   \<and> mset (sortedKVs exampleSafeSplitKey exampleFlushable)
     = mset (curKVBatch (fbBuffer exampleFlushable))"
  using chunks_keep_equal_keys_together [of exampleSafeSplitKey
      "[exampleHandler, exampleHandler, exampleHandler]" 2 exampleFlushable
      "[(exampleHandler, 0, 3), (exampleHandler, 3, 4)]" 4 exampleHandler 0 3]
  by (simp add: ex_chunks ex_sorted k_def exampleKV_def exampleSafeSplitKey_def)

text \<open>
  Claim C7. The assertion that guards full coverage never fails, for any buffer
  and any pool: whenever the loop over the workers runs to its end, the next
  chunk start is the length of the input and every index of the input lies in
  the chunk of some worker; and with a pool that is not empty the loop does run
  to its end.
\<close>

theorem chunks_cover_input:
  "flushBuffer essk bh bs b \<noteq> Some (FlushPanic AssertionFailed)
   \<and> (\<forall>workers chunkStart. assignChunks essk bh bs b = Inr (workers, chunkStart) \<longrightarrow>
        chunkStart = length (sortedKVs essk b)
        \<and> (\<forall>i < length (sortedKVs essk b). \<exists>(h, s, e) \<in> set workers. s \<le> i \<and> i < e))
   \<and> (bh \<noteq> [] \<longrightarrow>
        (\<exists>workers. assignChunks essk bh bs b = Inr (workers, length (sortedKVs essk b))))
   \<and> length (sortedKVs essk b) = length (curKVBatch (fbBuffer b))"
proof -
  have covered: "chunkStart = length (sortedKVs essk b)
        \<and> (\<forall>i < length (sortedKVs essk b). \<exists>(h, s, e) \<in> set workers. s \<le> i \<and> i < e)"
    if chunks: "assignChunks essk bh bs b = Inr (workers, chunkStart)" for workers chunkStart
  proof -
    from chunks have "bh \<noteq> []" by (rule assignChunks_Inr)
    from assignChunks_props [OF this, of essk bs b] chunks show ?thesis
      by auto
  qed
  have returns: "\<exists>workers. assignChunks essk bh bs b = Inr (workers, length (sortedKVs essk b))"
    if "bh \<noteq> []"
    using assignChunks_props [OF that, of essk bs b] by blast
  have "length (sortedKVs essk b) = length (curKVBatch (fbBuffer b))"
    by (simp add: sortedKVs_def length_SortFunc)
  with covered returns flushBuffer_no_assertion [of essk bh bs b] show ?thesis
    by blast
qed

theorem chunks_cover_input_witness:
  "[exampleHandler, exampleHandler, exampleHandler] \<noteq> []
   \<and> assignChunks exampleSafeSplitKey [exampleHandler, exampleHandler, exampleHandler] 2 exampleFlushable
     = Inr ([(exampleHandler, 0, 3), (exampleHandler, 3, 4)],
            length (sortedKVs exampleSafeSplitKey exampleFlushable))
   \<and> length (sortedKVs exampleSafeSplitKey exampleFlushable) = 4
   \<and> flushBuffer exampleSafeSplitKey [exampleHandler, exampleHandler, exampleHandler] 2 exampleFlushable
     \<noteq> Some (FlushPanic AssertionFailed)"
  using chunks_cover_input [of exampleSafeSplitKey
      "[exampleHandler, exampleHandler, exampleHandler]" 2 exampleFlushable]
  by (simp add: ex_chunks ex_sorted)

text \<open>
  Claim C2. The mutations are first sorted by split-safe key, then by value
  timestamp, ascending. A worker passes to \<^verbatim>\<open>HandleBatch\<close> consecutive pieces
  of its chunk, from the chunk start on: what it has passed when it returns is
  an initial part of the chunk, the whole chunk when no call failed. So within
  what a worker applies, mutations with the same split-safe key are in
  non-decreasing order of timestamp. With a positive batch size the worker
  returns.
\<close>

theorem chunk_applied_in_order:
  assumes chunks: "assignChunks essk bh bs b = Inr (workers, chunkStart)"
    and worker: "(h, s, e) \<in> set workers"
  shows "sorted_wrt (\<lambda>x y. k essk x < k essk y
                 \<or> (k essk x = k essk y \<and> LessEq (Timestamp (Value x)) (Timestamp (Value y))))
           (sortedKVs essk b)
    \<and> mset (sortedKVs essk b) = mset (curKVBatch (fbBuffer b))
    \<and> (0 < bs \<longrightarrow> workerLoop h (sortedKVs essk b) bs e s [] 0 \<noteq> None)
    \<and> (\<forall>applied bytes err.
          workerLoop h (sortedKVs essk b) bs e s [] 0 = Some (applied, bytes, err) \<longrightarrow>
            (\<exists>m. s \<le> m \<and> m \<le> e \<and> concat applied = slice (sortedKVs essk b) s m
               \<and> (err = None \<longrightarrow> m = e))
            \<and> sorted_wrt (\<lambda>x y. k essk x = k essk y \<longrightarrow>
                             LessEq (Timestamp (Value x)) (Timestamp (Value y)))
                (concat applied))"
proof -
  let ?kvs = "sortedKVs essk b"
  let ?le = "\<lambda>x y. k essk x < k essk y
                 \<or> (k essk x = k essk y \<and> LessEq (Timestamp (Value x)) (Timestamp (Value y)))"
  let ?same = "\<lambda>x y. k essk x = k essk y \<longrightarrow> LessEq (Timestamp (Value x)) (Timestamp (Value y))"
  from chunks have "bh \<noteq> []" by (rule assignChunks_Inr)
  from assignChunks_props [OF this, of essk bs b] chunks worker
  have se: "s < e" by auto
  have sorted: "sorted_wrt ?le ?kvs"
    using sorted_sortedKVs [of essk b] by (simp add: sortCmp_le0)
  then have same: "sorted_wrt ?same ?kvs"
    by (rule sorted_wrt_mono_rel [rotated]) auto
  have result: "(\<exists>m. s \<le> m \<and> m \<le> e \<and> concat applied = slice ?kvs s m \<and> (err = None \<longrightarrow> m = e))
      \<and> sorted_wrt ?same (concat applied)"
    if run: "workerLoop h ?kvs bs e s [] 0 = Some (applied, bytes, err)" for applied bytes err
  proof -
    from workerLoop_result [OF run] se obtain m where
      m: "s \<le> m" "m \<le> e" "concat applied = slice ?kvs s m" "err = None \<longrightarrow> m = e"
      by auto
    from same have "sorted_wrt ?same (slice ?kvs s m)" by (rule sorted_slice)
    with m show ?thesis by auto
  qed
  have "mset ?kvs = mset (curKVBatch (fbBuffer b))"
    by (simp add: sortedKVs_def mset_SortFunc)
  moreover have "0 < bs \<longrightarrow> workerLoop h ?kvs bs e s [] 0 \<noteq> None"
    using workerLoop_terminates by blast
  ultimately show ?thesis
    using sorted result by blast
qed

theorem chunk_applied_in_order_witness:
  "assignChunks exampleSafeSplitKey [exampleHandler, exampleHandler, exampleHandler] 2 exampleFlushable
     = Inr ([(exampleHandler, 0, 3), (exampleHandler, 3, 4)], 4)
   \<and> (exampleHandler, 0, 3) \<in> set [(exampleHandler, 0 :: nat, 3 :: nat), (exampleHandler, 3, 4)]
   \<and> (0 :: nat) < 2
   \<and> workerLoop exampleHandler (sortedKVs exampleSafeSplitKey exampleFlushable) 2 3 0 [] 0
     = Some ([[exampleKV [1, 1] 3, exampleKV [1, 2] 4], [exampleKV [1, 0] 5]], 42, None)
   \<and> sorted_wrt (\<lambda>x y. k exampleSafeSplitKey x = k exampleSafeSplitKey y \<longrightarrow>
                    LessEq (Timestamp (Value x)) (Timestamp (Value y)))
        (concat [[exampleKV [1, 1] 3, exampleKV [1, 2] 4], [exampleKV [1, 0] 5]])"
proof -
  have chunks: "assignChunks exampleSafeSplitKey [exampleHandler, exampleHandler, exampleHandler] 2
      exampleFlushable = Inr ([(exampleHandler, 0, 3), (exampleHandler, 3, 4)], 4)"
    by (rule ex_chunks)
  have worker: "(exampleHandler, 0, 3) \<in> set [(exampleHandler, 0 :: nat, 3 :: nat), (exampleHandler, 3, 4)]"
    by simp
  have run: "workerLoop exampleHandler (sortedKVs exampleSafeSplitKey exampleFlushable) 2 3 0 [] 0
     = Some ([[exampleKV [1, 1] 3, exampleKV [1, 2] 4], [exampleKV [1, 0] 5]], 42, None)"
    by (rule ex_worker)
  from chunk_applied_in_order [OF chunks worker] run
  have "sorted_wrt (\<lambda>x y. k exampleSafeSplitKey x = k exampleSafeSplitKey y \<longrightarrow>
                    LessEq (Timestamp (Value x)) (Timestamp (Value y)))
        (concat [[exampleKV [1, 1] 3, exampleKV [1, 2] 4], [exampleKV [1, 0] 5]])"
    by blast
  with chunks worker run show ?thesis
    by (intro conjI) simp_all
qed






end
